theory Spec2Isabelle
  imports Main
begin

section \<open>The scene hierarchy printer of ScenePrinter.js\<close>

text \<open>
  The script walks the host's scene graph and writes one line per scene object to the
  Logger. The host objects are modelled as a store: a scene object is a reference, and
  the store gives each reference its name, its component array and the references of
  its children. Nothing in the store forces the graph to be a tree, so a child may be
  shared or may lead back to an ancestor, as a host object could.
\<close>

subsection \<open>Values, components, scene objects\<close>

text \<open>
  A property of a component that the script reads without calling it (\<open>tweenType\<close>,
  \<open>tweenName\<close>): absent (JavaScript \<open>undefined\<close>) or a string.
\<close>

datatype jsval = Undefined | Str string

text \<open>JavaScript truthiness: \<open>undefined\<close> and the empty string are falsy.\<close>

fun truthy :: "jsval \<Rightarrow> bool" where
  "truthy Undefined = False"
| "truthy (Str s) = (s \<noteq> [])"

text \<open>What a template literal \<open>${v}\<close> renders.\<close>

fun toString :: "jsval \<Rightarrow> string" where
  "toString Undefined = ''undefined''"
| "toString (Str s) = s"

text \<open>
  A component: \<open>getTypeName\<close> is \<open>None\<close> when the object has no such accessor and
  \<open>Some t\<close> when calling it returns \<open>t\<close>.
\<close>

record component =
  getTypeName :: "string option"
  tweenType :: jsval
  tweenName :: jsval

type_synonym ref = nat

text \<open>
  A scene object. \<open>getComponents\<close> is what \<open>object.getComponents("Component")\<close>
  returns: \<open>None\<close> for a null result, otherwise an array whose entries may be
  null (\<open>None\<close>).
\<close>

record sceneObject =
  name :: string
  getComponents :: "component option list option"
  children :: "ref list"

definition getChildrenCount :: "sceneObject \<Rightarrow> nat" where
  "getChildrenCount obj = length (children obj)"

text \<open>Only ever called with \<open>i < getChildrenCount obj\<close>.\<close>

definition getChild :: "sceneObject \<Rightarrow> nat \<Rightarrow> ref" where
  "getChild obj i = children obj ! i"

record scene =
  objects :: "ref \<Rightarrow> sceneObject"
  rootObjects :: "ref list"

definition getRootObjectsCount :: "scene \<Rightarrow> nat" where
  "getRootObjectsCount sc = length (rootObjects sc)"

text \<open>Only ever called with \<open>i < getRootObjectsCount sc\<close>.\<close>

definition getRootObject :: "scene \<Rightarrow> nat \<Rightarrow> ref" where
  "getRootObject sc i = rootObjects sc ! i"

subsection \<open>The world: the global scene and the Logger\<close>

record world =
  scene :: scene
  logger :: "string list"

definition print :: "string \<Rightarrow> world \<Rightarrow> world" where
  "print line w = w\<lparr>logger := logger w @ [line]\<rparr>"

subsection \<open>The loops of printObjectRecursive\<close>

text \<open>Step 1: \<open>for (j = 0; j < depth; j++) indentation += "  "\<close>.\<close>

function indentationLoop :: "nat \<Rightarrow> nat \<Rightarrow> string \<Rightarrow> string" where
  "indentationLoop j depth indentation =
     (if j < depth then indentationLoop (Suc j) depth (indentation @ ''  '')
      else indentation)"
  by pat_completeness auto
termination
  by (relation "measure (\<lambda>(j, depth, indentation). depth - j)") auto

declare indentationLoop.simps [simp del]

text \<open>\<open>Array.prototype.join\<close> on an array of strings.\<close>

fun join :: "string \<Rightarrow> string list \<Rightarrow> string" where
  "join sep [] = []"
| "join sep [x] = x"
| "join sep (x # y # ys) = x @ sep @ join sep (y # ys)"

text \<open>
  Step 2, the loop over \<open>allComponents\<close>: the array \<open>componentNames\<close> grows by
  \<open>push\<close>, and a component with a truthy \<open>tweenType\<close> also writes a line to the
  Logger.
\<close>

function componentsLoop ::
  "component option list \<Rightarrow> nat \<Rightarrow> string list \<Rightarrow> world \<Rightarrow> string list \<times> world" where
  "componentsLoop allComponents i componentNames w =
     (if i < length allComponents then
        (case allComponents ! i of
           None \<Rightarrow> componentsLoop allComponents (Suc i) componentNames w
         | Some component \<Rightarrow>
             (case getTypeName component of
                None \<Rightarrow> componentsLoop allComponents (Suc i) componentNames w
              | Some typeName \<Rightarrow>
                  if truthy (tweenType component) then
                    componentsLoop allComponents (Suc i)
                      (componentNames @
                        [typeName @ ''-TweenScript (type:'' @ toString (tweenType component)
                           @ '', name:'' @ toString (tweenName component) @ '')''])
                      (print ''Found tween component'' w)
                  else
                    componentsLoop allComponents (Suc i) (componentNames @ [typeName]) w))
      else (componentNames, w))"
  by pat_completeness auto
termination
  by (relation "measure (\<lambda>(allComponents, i, componentNames, w). length allComponents - i)")
    auto

declare componentsLoop.simps [simp del]

text \<open>Step 2 as a whole: the value of \<open>componentsInfo\<close> and the world after it.\<close>

definition componentsInfo :: "sceneObject \<Rightarrow> world \<Rightarrow> string \<times> world" where
  "componentsInfo obj w =
     (case getComponents obj of
        None \<Rightarrow> ('''', w)
      | Some allComponents \<Rightarrow>
          if length allComponents > 0 then
            (case componentsLoop allComponents 0 [] w of
               (componentNames, w') \<Rightarrow> ('' ('' @ join '', '' componentNames @ '')'', w'))
          else ('''', w))"

subsection \<open>printObjectRecursive and printSceneHierarchy\<close>

text \<open>
  The recursion follows the host's child references and need not end; \<open>fuel\<close> bounds
  the depth of the call stack, and \<open>None\<close> is a run that does not return within it.
  The children are read from the world as it is when the loop reaches them.
\<close>

function printObjectRecursive :: "nat \<Rightarrow> ref \<Rightarrow> nat \<Rightarrow> world \<Rightarrow> world option"
  and childrenLoop :: "nat \<Rightarrow> ref \<Rightarrow> nat \<Rightarrow> nat \<Rightarrow> nat \<Rightarrow> world \<Rightarrow> world option" where
  "printObjectRecursive 0 object depth w = None"
| "printObjectRecursive (Suc fuel) object depth w =
     (let indentation = indentationLoop 0 depth '''';
          (info, w1) = componentsInfo (objects (scene w) object) w;
          w2 = print (indentation @ ''|-- '' @ name (objects (scene w1) object) @ info) w1;
          childrenCount = getChildrenCount (objects (scene w2) object)
      in childrenLoop fuel object depth 0 childrenCount w2)"
| "childrenLoop fuel object depth i childrenCount w =
     (if i < childrenCount then
        (case printObjectRecursive fuel (getChild (objects (scene w) object) i) (depth + 1) w of
           None \<Rightarrow> None
         | Some w' \<Rightarrow> childrenLoop fuel object depth (Suc i) childrenCount w')
      else Some w)"
  by pat_completeness auto
termination
proof (relation "measures [\<lambda>x. case x of
         Inl (fuel, object, depth, w) \<Rightarrow> 2 * fuel
       | Inr (fuel, object, depth, i, childrenCount, w) \<Rightarrow> 2 * fuel + 1,
       \<lambda>x. case x of
         Inl (fuel, object, depth, w) \<Rightarrow> 0
       | Inr (fuel, object, depth, i, childrenCount, w) \<Rightarrow> childrenCount - i]")
qed simp_all

declare printObjectRecursive.simps [simp del]
declare childrenLoop.simps [simp del]

function rootObjectsLoop :: "nat \<Rightarrow> nat \<Rightarrow> nat \<Rightarrow> world \<Rightarrow> world option" where
  "rootObjectsLoop fuel i rootObjectsCount w =
     (if i < rootObjectsCount then
        (case printObjectRecursive fuel (getRootObject (scene w) i) 0 w of
           None \<Rightarrow> None
         | Some w' \<Rightarrow> rootObjectsLoop fuel (Suc i) rootObjectsCount w')
      else Some w)"
  by pat_completeness auto
termination
  by (relation "measure (\<lambda>(fuel, i, rootObjectsCount, w). rootObjectsCount - i)") auto

declare rootObjectsLoop.simps [simp del]

definition printSceneHierarchy :: "nat \<Rightarrow> world \<Rightarrow> world option" where
  "printSceneHierarchy fuel w =
     (let w1 = print ''--- Scene Hierarchy Start ---'' w;
          rootObjectsCount = getRootObjectsCount (scene w1)
      in case rootObjectsLoop fuel 0 rootObjectsCount w1 of
           None \<Rightarrow> None
         | Some w2 \<Rightarrow> Some (print ''--- Scene Hierarchy End ---'' w2))"

subsection \<open>Reading the output\<close>

text \<open>
  The vocabulary in which the properties of the output are stated. First the component
  array: which entries pass the check \<open>component && component.getTypeName\<close>, which of
  those count as a tween (a truthy \<open>tweenType\<close>), and the descriptor of an entry
  that passes.
\<close>

definition passesCheck :: "component option \<Rightarrow> bool" where
  "passesCheck c = (case c of None \<Rightarrow> False | Some component \<Rightarrow> getTypeName component \<noteq> None)"

definition isTween :: "component option \<Rightarrow> bool" where
  "isTween c = (case c of None \<Rightarrow> False
     | Some component \<Rightarrow> getTypeName component \<noteq> None \<and> truthy (tweenType component))"

definition descriptor :: "component option \<Rightarrow> string" where
  "descriptor c = (case c of None \<Rightarrow> []
     | Some component \<Rightarrow>
        (case getTypeName component of None \<Rightarrow> []
         | Some typeName \<Rightarrow>
             if truthy (tweenType component) then
               typeName @ ''-TweenScript (type:'' @ toString (tweenType component)
                 @ '', name:'' @ toString (tweenName component) @ '')''
             else typeName))"

text \<open>
  The three fixed lines of the script, and the lines that belong to one object: one
  "Found tween component" per tween entry, then the line of the object itself, made of
  two spaces per level of depth, the marker, the name and the suffix.
\<close>

definition hierarchyStart :: string where
  "hierarchyStart = ''--- Scene Hierarchy Start ---''"

definition hierarchyEnd :: string where
  "hierarchyEnd = ''--- Scene Hierarchy End ---''"

definition foundTween :: string where
  "foundTween = ''Found tween component''"

definition suffix :: "sceneObject \<Rightarrow> string" where
  "suffix obj =
     (case getComponents obj of
        None \<Rightarrow> []
      | Some cs \<Rightarrow>
          if cs = [] then []
          else '' ('' @ join '', '' (map descriptor (filter passesCheck cs)) @ '')'')"

definition tweens :: "sceneObject \<Rightarrow> nat" where
  "tweens obj = (case getComponents obj of None \<Rightarrow> 0 | Some cs \<Rightarrow> length (filter isTween cs))"

definition objectLine :: "sceneObject \<Rightarrow> nat \<Rightarrow> string" where
  "objectLine obj depth = replicate (2 * depth) CHR '' '' @ ''|-- '' @ name obj @ suffix obj"

definition objectLines :: "sceneObject \<Rightarrow> nat \<Rightarrow> string list" where
  "objectLines obj depth = replicate (tweens obj) foundTween @ [objectLine obj depth]"

text \<open>
  The shape of the graph below an object. \<open>fits h n r\<close> holds when every chain of
  child references that starts at \<open>r\<close> ends within \<open>n\<close> objects: the graph below
  \<open>r\<close> is a finite acyclic one of height at most \<open>n\<close>. \<open>childEdges\<close> is the
  child relation itself, in which finiteness and acyclicity are stated directly.
\<close>

fun fits :: "(ref \<Rightarrow> sceneObject) \<Rightarrow> nat \<Rightarrow> ref \<Rightarrow> bool" where
  "fits h 0 r = False"
| "fits h (Suc n) r = list_all (fits h n) (children (h r))"

definition childEdges :: "(ref \<Rightarrow> sceneObject) \<Rightarrow> (ref \<times> ref) set" where
  "childEdges h = {(p, c). c \<in> set (children (h p))}"

text \<open>
  Depth-first pre-order, as a list of objects with their depths: an object, then the
  enumerations of its children in the order of its list of children, one level deeper;
  for a scene, the enumerations of the root objects at depth 0 in the order of the list
  of root objects. The first argument after the store bounds the height, as in
  \<open>fits\<close>. An object that is reached along two paths is listed twice.
\<close>

fun visits :: "(ref \<Rightarrow> sceneObject) \<Rightarrow> nat \<Rightarrow> nat \<Rightarrow> ref \<Rightarrow> (ref \<times> nat) list" where
  "visits h 0 depth r = []"
| "visits h (Suc n) depth r =
     (r, depth) # concat (map (visits h n (Suc depth)) (children (h r)))"

definition visitsRoots :: "(ref \<Rightarrow> sceneObject) \<Rightarrow> nat \<Rightarrow> ref list \<Rightarrow> (ref \<times> nat) list" where
  "visitsRoots h n roots = concat (map (visits h n 0) roots)"

definition linesOf :: "(ref \<Rightarrow> sceneObject) \<Rightarrow> (ref \<times> nat) list \<Rightarrow> string list" where
  "linesOf h vs = concat (map (\<lambda>(r, depth). objectLines (h r) depth) vs)"

text \<open>
  The object lines of an output: the lines other than the two markers and the
  "Found tween component" lines. No line of an object is one of these three
  (\<open>objectLine_not_fixed\<close> below).
\<close>

definition nodeLinesOf :: "string list \<Rightarrow> string list" where
  "nodeLinesOf out =
     filter (\<lambda>line. line \<notin> {hierarchyStart, foundTween, hierarchyEnd}) out"

subsection \<open>Example scenes\<close>

text \<open>
  A scene with two root objects: "Lighting" with the children "Envmap" and "Light", and
  "Intro Cta" with an image, a null entry and a tween among its components; and the
  lines the script writes for it.
\<close>

definition plainComponent :: "string \<Rightarrow> component" where
  "plainComponent typeName =
     \<lparr>getTypeName = Some typeName, tweenType = Undefined, tweenName = Undefined\<rparr>"

definition tweenComponent :: component where
  "tweenComponent =
     \<lparr>getTypeName = Some ''ScriptComponent'', tweenType = Str ''alpha'', tweenName = Str ''fadeIn''\<rparr>"

definition demoObjects :: "ref \<Rightarrow> sceneObject" where
  "demoObjects r =
     (if r = 0 then \<lparr>name = ''Lighting'', getComponents = Some [], children = [1, 2]\<rparr>
      else if r = 1 then
        \<lparr>name = ''Envmap'', getComponents = Some [Some (plainComponent ''LightSource'')],
         children = []\<rparr>
      else if r = 2 then
        \<lparr>name = ''Light'', getComponents = None, children = []\<rparr>
      else
        \<lparr>name = ''Intro Cta'',
         getComponents = Some [Some (plainComponent ''Image''), None, Some tweenComponent],
         children = []\<rparr>)"

definition demoWorld :: world where
  "demoWorld = \<lparr>scene = \<lparr>objects = demoObjects, rootObjects = [0, 3]\<rparr>, logger = []\<rparr>"

definition demoLog :: "string list" where
  "demoLog =
     [''--- Scene Hierarchy Start ---'',
      ''|-- Lighting'',
      ''  |-- Envmap (LightSource)'',
      ''  |-- Light'',
      ''Found tween component'',
      ''|-- Intro Cta (Image, ScriptComponent-TweenScript (type:alpha, name:fadeIn))'',
      ''--- Scene Hierarchy End ---'']"

text \<open>
  A scene whose only root has a single tween component; an object whose component
  array holds a null entry and an object without getTypeName; a component with a
  tweenType and no tweenName.
\<close>

definition tweenObjects :: "ref \<Rightarrow> sceneObject" where
  "tweenObjects r =
     \<lparr>name = ''Intro Cta'', getComponents = Some [Some tweenComponent], children = []\<rparr>"

definition tweenWorld :: world where
  "tweenWorld = \<lparr>scene = \<lparr>objects = tweenObjects, rootObjects = [0]\<rparr>, logger = []\<rparr>"

definition ghostObjects :: "ref \<Rightarrow> sceneObject" where
  "ghostObjects r =
     \<lparr>name = ''Ghost'',
      getComponents = Some [None,
        Some \<lparr>getTypeName = None, tweenType = Str ''alpha'', tweenName = Str ''fadeIn''\<rparr>],
      children = []\<rparr>"

definition ghostWorld :: world where
  "ghostWorld = \<lparr>scene = \<lparr>objects = ghostObjects, rootObjects = [0]\<rparr>, logger = []\<rparr>"

definition tweenTypeOnly :: component where
  "tweenTypeOnly =
     \<lparr>getTypeName = Some ''ScriptComponent'', tweenType = Str ''alpha'', tweenName = Undefined\<rparr>"

definition tweenTypeOnlyObject :: sceneObject where
  "tweenTypeOnlyObject =
     \<lparr>name = ''Intro Cta'', getComponents = Some [Some tweenTypeOnly], children = []\<rparr>"

section \<open>Properties\<close>

subsection \<open>The loops in closed form\<close>

lemma passesCheck_simps [simp]:
  "passesCheck None = False"
  "passesCheck (Some component) = (getTypeName component \<noteq> None)"
  by (simp_all add: passesCheck_def)

lemma isTween_simps [simp]:
  "isTween None = False"
  "isTween (Some component) = (getTypeName component \<noteq> None \<and> truthy (tweenType component))"
  by (simp_all add: isTween_def)

lemma descriptor_Some:
  "getTypeName component = Some typeName \<Longrightarrow>
   descriptor (Some component) =
     (if truthy (tweenType component) then
        typeName @ ''-TweenScript (type:'' @ toString (tweenType component)
          @ '', name:'' @ toString (tweenName component) @ '')''
      else typeName)"
  by (simp add: descriptor_def)

lemma indentationLoop_eq:
  "indentationLoop j depth indentation = indentation @ replicate (2 * (depth - j)) CHR '' ''"
proof (induction j depth indentation rule: indentationLoop.induct)
  case (1 j depth indentation)
  show ?case
  proof (cases "j < depth")
    case True
    then have "depth - j = Suc (depth - Suc j)" by simp
    with True 1 show ?thesis
      by (subst indentationLoop.simps) (simp add: replicate_append_same)
  next
    case False
    then show ?thesis by (subst indentationLoop.simps) simp
  qed
qed

lemma componentsLoop_eq:
  "componentsLoop cs i names w =
     (names @ map descriptor (filter passesCheck (drop i cs)),
      w\<lparr>logger := logger w @ replicate (length (filter isTween (drop i cs))) foundTween\<rparr>)"
proof (induction cs i names w rule: componentsLoop.induct)
  case (1 cs i names w)
  show ?case
  proof (cases "i < length cs")
    case False
    then show ?thesis by (subst componentsLoop.simps) simp
  next
    case True
    then have d: "drop i cs = cs ! i # drop (Suc i) cs"
      by (simp add: Cons_nth_drop_Suc)
    show ?thesis
    proof (cases "cs ! i")
      case None
      with True 1(1) d show ?thesis
        by (subst componentsLoop.simps) simp
    next
      case (Some component)
      note sc = this
      show ?thesis
      proof (cases "getTypeName component")
        case None
        with True sc 1(2) d show ?thesis
          by (subst componentsLoop.simps) simp
      next
        case (Some typeName)
        show ?thesis
        proof (cases "truthy (tweenType component)")
          case True
          with \<open>i < length cs\<close> sc Some 1(3) d show ?thesis
            by (subst componentsLoop.simps)
              (simp add: descriptor_Some print_def foundTween_def replicate_append_same)
        next
          case False
          with \<open>i < length cs\<close> sc Some 1(4) d show ?thesis
            by (subst componentsLoop.simps)
              (simp add: descriptor_Some)
        qed
      qed
    qed
  qed
qed

lemma componentsInfo_eq:
  "componentsInfo obj w =
     (suffix obj, w\<lparr>logger := logger w @ replicate (tweens obj) foundTween\<rparr>)"
  by (cases "getComponents obj")
    (simp_all add: componentsInfo_def suffix_def tweens_def componentsLoop_eq)

lemma suffix_eq:
  "suffix obj =
     (if (case getComponents obj of None \<Rightarrow> [] | Some cs \<Rightarrow> cs) = [] then []
      else '' ('' @ join '', ''
        (map descriptor (filter passesCheck (case getComponents obj of None \<Rightarrow> [] | Some cs \<Rightarrow> cs)))
        @ '')'')"
  by (simp add: suffix_def split: option.splits)

lemma filter_take_nth:
  assumes "i < length cs" and "P (cs ! i)"
  shows "filter P cs ! length (filter P (take i cs)) = cs ! i"
proof -
  from assms(1) have "cs = take i cs @ cs ! i # drop (Suc i) cs"
    by (simp add: id_take_nth_drop)
  then have "filter P cs = filter P (take i cs) @ filter P (cs ! i # drop (Suc i) cs)"
    by (metis filter_append)
  with assms(2) show ?thesis
    by simp
qed

lemma filter_passesCheck_none:
  "\<forall>c \<in> set cs. c = None \<or> (\<exists>component. c = Some component \<and> getTypeName component = None)
   \<Longrightarrow> filter passesCheck cs = [] \<and> filter isTween cs = []"
  by (induction cs) auto

subsection \<open>Height and visiting order\<close>

lemma linesOf_simps [simp]:
  "linesOf h [] = []"
  "linesOf h ((r, depth) # vs) = objectLines (h r) depth @ linesOf h vs"
  "linesOf h (vs @ vs') = linesOf h vs @ linesOf h vs'"
  by (simp_all add: linesOf_def)

lemma linesOf_concat: "linesOf h (concat vss) = concat (map (linesOf h) vss)"
  by (induction vss) simp_all

lemma length_linesOf:
  "length (linesOf h vs) = length vs + sum_list (map (\<lambda>(r, depth). tweens (h r)) vs)"
  by (induction vs) (auto simp: objectLines_def)

lemma linesOf_unfold:
  "linesOf h vs =
     concat (map (\<lambda>(r, depth). replicate (tweens (h r)) ''Found tween component'' @
        [replicate (2 * depth) CHR '' '' @ ''|-- '' @ name (h r) @ suffix (h r)]) vs)"
  by (induction vs) (auto simp: objectLines_def objectLine_def foundTween_def)

lemma fits_mono: "fits h n r \<Longrightarrow> n \<le> m \<Longrightarrow> fits h m r"
proof (induction n arbitrary: m r)
  case 0
  then show ?case by simp
next
  case (Suc n)
  then obtain m' where m: "m = Suc m'" and le: "n \<le> m'"
    by (cases m) auto
  from Suc.prems(1) have "\<forall>c \<in> set (children (h r)). fits h n c"
    by (simp add: list_all_iff)
  with Suc.IH le have "\<forall>c \<in> set (children (h r)). fits h m' c"
    by blast
  with m show ?case by (simp add: list_all_iff)
qed

lemma list_all_fits_mono:
  "list_all (fits h n) rs \<Longrightarrow> n \<le> m \<Longrightarrow> list_all (fits h m) rs"
  by (induction rs) (auto intro: fits_mono)

lemma list_all_fits_bound:
  "\<forall>c \<in> set cs. \<exists>n. fits h n c \<Longrightarrow> \<exists>n. list_all (fits h n) cs"
proof (induction cs)
  case Nil
  then show ?case by simp
next
  case (Cons c cs)
  then obtain n m where n: "fits h n c" and m: "list_all (fits h m) cs"
    by auto
  have "fits h (max n m) c"
    using n by (rule fits_mono) simp
  moreover have "list_all (fits h (max n m)) cs"
    using m by (rule list_all_fits_mono) simp
  ultimately show ?case
    by auto
qed

lemma visits_mono: "fits h n r \<Longrightarrow> n \<le> m \<Longrightarrow> visits h m depth r = visits h n depth r"
proof (induction n arbitrary: m r depth)
  case 0
  then show ?case by simp
next
  case (Suc n)
  then obtain m' where m: "m = Suc m'" and le: "n \<le> m'"
    by (cases m) auto
  from Suc.prems(1) have "\<forall>c \<in> set (children (h r)). fits h n c"
    by (simp add: list_all_iff)
  with Suc.IH le
  have "\<forall>c \<in> set (children (h r)). visits h m' (Suc depth) c = visits h n (Suc depth) c"
    by blast
  hence "map (visits h m' (Suc depth)) (children (h r)) = map (visits h n (Suc depth)) (children (h r))"
    by (intro map_cong refl) blast
  with m show ?case by (simp del: map_eq_conv)
qed

lemma visitsRoots_mono:
  "list_all (fits h n) rs \<Longrightarrow> n \<le> m \<Longrightarrow> visitsRoots h m rs = visitsRoots h n rs"
proof (induction rs)
  case Nil
  then show ?case by (simp add: visitsRoots_def)
next
  case (Cons r rs)
  then have "visits h m 0 r = visits h n 0 r"
    by (simp add: visits_mono[of h n r m 0])
  moreover from Cons have "visitsRoots h m rs = visitsRoots h n rs"
    by simp
  ultimately show ?case
    by (simp add: visitsRoots_def)
qed

lemma visits_fits_Cons:
  "fits h n r \<Longrightarrow> \<exists>vs. visits h n depth r = (r, depth) # vs"
  by (cases n) simp_all

subsection \<open>What a returning call writes\<close>

lemma printObjectRecursive_Suc:
  "printObjectRecursive (Suc fuel) object depth w =
     childrenLoop fuel object depth 0 (length (children (objects (scene w) object)))
       (w\<lparr>logger := logger w @ objectLines (objects (scene w) object) depth\<rparr>)"
  by (simp add: printObjectRecursive.simps componentsInfo_eq indentationLoop_eq print_def
      getChildrenCount_def objectLines_def objectLine_def)

lemma childrenLoop_eq:
  assumes rec: "\<And>c d w. fits (objects (scene w)) fuel c \<Longrightarrow>
     printObjectRecursive fuel c d w =
       Some (w\<lparr>logger := logger w @ linesOf (objects (scene w)) (visits (objects (scene w)) fuel d c)\<rparr>)"
  shows "list_all (fits (objects (scene w)) fuel) (drop i (children (objects (scene w) object))) \<Longrightarrow>
     childrenCount = length (children (objects (scene w) object)) \<Longrightarrow>
     childrenLoop fuel object depth i childrenCount w =
       Some (w\<lparr>logger := logger w @ linesOf (objects (scene w))
          (concat (map (visits (objects (scene w)) fuel (Suc depth))
             (drop i (children (objects (scene w) object)))))\<rparr>)"
proof (induction "childrenCount - i" arbitrary: i w)
  case 0
  then show ?case by (subst childrenLoop.simps) simp
next
  case (Suc k)
  let ?h = "objects (scene w)"
  let ?cs = "children (?h object)"
  from Suc.hyps(2) Suc.prems(2) have lt: "i < childrenCount" and il: "i < length ?cs"
    by simp_all
  then have d: "drop i ?cs = ?cs ! i # drop (Suc i) ?cs"
    by (simp add: Cons_nth_drop_Suc)
  with Suc.prems(1) have f1: "fits ?h fuel (?cs ! i)"
    and f2: "list_all (fits ?h fuel) (drop (Suc i) ?cs)"
    by simp_all
  define w' where
    "w' = w\<lparr>logger := logger w @ linesOf ?h (visits ?h fuel (Suc depth) (?cs ! i))\<rparr>"
  from rec[OF f1]
  have p: "printObjectRecursive fuel (getChild (?h object) i) (depth + 1) w = Some w'"
    by (simp add: getChild_def w'_def)
  have k: "k = childrenCount - Suc i"
    using Suc.hyps(2) by simp
  have "childrenLoop fuel object depth (Suc i) childrenCount w' =
       Some (w'\<lparr>logger := logger w' @ linesOf (objects (scene w'))
          (concat (map (visits (objects (scene w')) fuel (Suc depth))
             (drop (Suc i) (children (objects (scene w') object)))))\<rparr>)"
    using f2 Suc.prems(2) by (intro Suc.hyps(1)[OF k]) (simp_all add: w'_def)
  with p lt d show ?case
    by (subst childrenLoop.simps) (simp add: w'_def)
qed

lemma printObjectRecursive_eq:
  "fits (objects (scene w)) fuel object \<Longrightarrow>
     printObjectRecursive fuel object depth w =
       Some (w\<lparr>logger := logger w @
          linesOf (objects (scene w)) (visits (objects (scene w)) fuel depth object)\<rparr>)"
proof (induction fuel arbitrary: object depth w)
  case 0
  then show ?case by simp
next
  case (Suc fuel)
  define w2 where "w2 = w\<lparr>logger := logger w @ objectLines (objects (scene w) object) depth\<rparr>"
  have "childrenLoop fuel object depth 0 (length (children (objects (scene w) object))) w2 =
       Some (w2\<lparr>logger := logger w2 @ linesOf (objects (scene w2))
          (concat (map (visits (objects (scene w2)) fuel (Suc depth))
             (drop 0 (children (objects (scene w2) object)))))\<rparr>)"
  proof (rule childrenLoop_eq)
    fix c d and v :: world
    assume "fits (objects (scene v)) fuel c"
    then show "printObjectRecursive fuel c d v =
       Some (v\<lparr>logger := logger v @ linesOf (objects (scene v)) (visits (objects (scene v)) fuel d c)\<rparr>)"
      by (rule Suc.IH)
  next
    from Suc.prems
    show "list_all (fits (objects (scene w2)) fuel) (drop 0 (children (objects (scene w2) object)))"
      by (simp add: w2_def)
  next
    show "length (children (objects (scene w) object)) = length (children (objects (scene w2) object))"
      by (simp add: w2_def)
  qed
  then show ?case
    by (simp add: printObjectRecursive_Suc w2_def)
qed

lemma printObjectRecursive_fuel:
  assumes "fits (objects (scene w)) n object" and "n \<le> fuel"
  shows "printObjectRecursive fuel object depth w =
       Some (w\<lparr>logger := logger w @
          linesOf (objects (scene w)) (visits (objects (scene w)) n depth object)\<rparr>)"
proof -
  from assms have "fits (objects (scene w)) fuel object"
    by (rule fits_mono)
  moreover from assms
  have "visits (objects (scene w)) fuel depth object = visits (objects (scene w)) n depth object"
    by (rule visits_mono)
  ultimately show ?thesis
    by (simp add: printObjectRecursive_eq)
qed

lemma printObjectRecursive_first:
  assumes "fits (objects (scene w)) n object" and "n \<le> fuel"
  shows "\<exists>rest. printObjectRecursive fuel object depth w =
     Some (w\<lparr>logger := logger w @ objectLines (objects (scene w) object) depth @ rest\<rparr>)"
proof -
  from assms(1) obtain vs where "visits (objects (scene w)) n depth object = (object, depth) # vs"
    using visits_fits_Cons by blast
  with printObjectRecursive_fuel[OF assms, of depth]
  have "printObjectRecursive fuel object depth w =
     Some (w\<lparr>logger := logger w @ objectLines (objects (scene w) object) depth @
       linesOf (objects (scene w)) vs\<rparr>)"
    by simp
  then show ?thesis by (rule exI)
qed

lemma rootObjectsLoop_eq:
  "list_all (fits (objects (scene w)) fuel) (drop i (rootObjects (scene w))) \<Longrightarrow>
   rootObjectsCount = length (rootObjects (scene w)) \<Longrightarrow>
     rootObjectsLoop fuel i rootObjectsCount w =
       Some (w\<lparr>logger := logger w @ linesOf (objects (scene w))
          (visitsRoots (objects (scene w)) fuel (drop i (rootObjects (scene w))))\<rparr>)"
proof (induction "rootObjectsCount - i" arbitrary: i w)
  case 0
  then show ?case by (subst rootObjectsLoop.simps) (simp add: visitsRoots_def)
next
  case (Suc k)
  let ?h = "objects (scene w)"
  let ?rs = "rootObjects (scene w)"
  from Suc.hyps(2) Suc.prems(2) have lt: "i < rootObjectsCount" and il: "i < length ?rs"
    by simp_all
  then have d: "drop i ?rs = ?rs ! i # drop (Suc i) ?rs"
    by (simp add: Cons_nth_drop_Suc)
  with Suc.prems(1) have f1: "fits ?h fuel (?rs ! i)"
    and f2: "list_all (fits ?h fuel) (drop (Suc i) ?rs)"
    by simp_all
  define w' where
    "w' = w\<lparr>logger := logger w @ linesOf ?h (visits ?h fuel 0 (?rs ! i))\<rparr>"
  from f1 have p: "printObjectRecursive fuel (getRootObject (scene w) i) 0 w = Some w'"
    by (simp add: printObjectRecursive_eq getRootObject_def w'_def)
  have k: "k = rootObjectsCount - Suc i"
    using Suc.hyps(2) by simp
  have "rootObjectsLoop fuel (Suc i) rootObjectsCount w' =
       Some (w'\<lparr>logger := logger w' @ linesOf (objects (scene w'))
          (visitsRoots (objects (scene w')) fuel (drop (Suc i) (rootObjects (scene w'))))\<rparr>)"
    using f2 Suc.prems(2) by (intro Suc.hyps(1)[OF k]) (simp_all add: w'_def)
  with p lt d show ?case
    by (subst rootObjectsLoop.simps) (simp add: w'_def visitsRoots_def)
qed

lemma printSceneHierarchy_eq:
  assumes "list_all (fits (objects (scene w)) n) (rootObjects (scene w))" and "n \<le> fuel"
  shows "printSceneHierarchy fuel w =
     Some (w\<lparr>logger := logger w @ hierarchyStart #
        linesOf (objects (scene w)) (visitsRoots (objects (scene w)) n (rootObjects (scene w)))
        @ [hierarchyEnd]\<rparr>)"
proof -
  define w1 where "w1 = w\<lparr>logger := logger w @ [hierarchyStart]\<rparr>"
  from assms have "list_all (fits (objects (scene w)) fuel) (rootObjects (scene w))"
    by (rule list_all_fits_mono)
  then have "rootObjectsLoop fuel 0 (length (rootObjects (scene w1))) w1 =
       Some (w1\<lparr>logger := logger w1 @ linesOf (objects (scene w1))
          (visitsRoots (objects (scene w1)) fuel (drop 0 (rootObjects (scene w1))))\<rparr>)"
    by (intro rootObjectsLoop_eq) (simp_all add: w1_def)
  moreover have "visitsRoots (objects (scene w)) fuel (rootObjects (scene w)) =
      visitsRoots (objects (scene w)) n (rootObjects (scene w))"
    using assms by (rule visitsRoots_mono)
  ultimately show ?thesis
    by (simp add: printSceneHierarchy_def print_def getRootObjectsCount_def w1_def
        hierarchyStart_def hierarchyEnd_def)
qed

subsection \<open>A call returns only within the height\<close>

lemma childrenLoop_Some_fits:
  assumes rec: "\<And>c d (v :: world) v'. printObjectRecursive fuel c d v = Some v' \<Longrightarrow>
     fits (objects (scene v)) fuel c"
  shows "childrenLoop fuel object depth i childrenCount w = Some w' \<Longrightarrow>
     childrenCount = length (children (objects (scene w) object)) \<Longrightarrow>
     list_all (fits (objects (scene w)) fuel) (drop i (children (objects (scene w) object)))"
proof (induction "childrenCount - i" arbitrary: i w)
  case 0
  then show ?case by simp
next
  case (Suc k)
  let ?h = "objects (scene w)"
  let ?cs = "children (?h object)"
  from Suc.hyps(2) Suc.prems(2) have lt: "i < childrenCount" and il: "i < length ?cs"
    by simp_all
  then have d: "drop i ?cs = ?cs ! i # drop (Suc i) ?cs"
    by (simp add: Cons_nth_drop_Suc)
  from Suc.prems(1) lt obtain v where
    p: "printObjectRecursive fuel (getChild (?h object) i) (depth + 1) w = Some v" and
    l: "childrenLoop fuel object depth (Suc i) childrenCount v = Some w'"
    by (subst (asm) childrenLoop.simps) (simp split: option.splits)
  from rec[OF p] have f1: "fits ?h fuel (?cs ! i)"
    by (simp add: getChild_def)
  with p have v: "scene v = scene w"
    by (auto simp: printObjectRecursive_eq getChild_def)
  have k: "k = childrenCount - Suc i"
    using Suc.hyps(2) by simp
  from Suc.hyps(1)[OF k l] Suc.prems(2) v
  have "list_all (fits ?h fuel) (drop (Suc i) ?cs)"
    by simp
  with f1 d show ?case by simp
qed

lemma printObjectRecursive_Some_fits:
  "printObjectRecursive fuel object depth w = Some w' \<Longrightarrow> fits (objects (scene w)) fuel object"
proof (induction fuel arbitrary: object depth w w')
  case 0
  then show ?case by (simp add: printObjectRecursive.simps)
next
  case (Suc fuel)
  define w2 where "w2 = w\<lparr>logger := logger w @ objectLines (objects (scene w) object) depth\<rparr>"
  from Suc.prems
  have "childrenLoop fuel object depth 0 (length (children (objects (scene w2) object))) w2 = Some w'"
    by (simp add: printObjectRecursive_Suc w2_def)
  note loop = this
  have "list_all (fits (objects (scene w2)) fuel) (drop 0 (children (objects (scene w2) object)))"
  proof (rule childrenLoop_Some_fits)
    fix c d and v v' :: world
    assume "printObjectRecursive fuel c d v = Some v'"
    then show "fits (objects (scene v)) fuel c"
      by (rule Suc.IH)
  next
    show "childrenLoop fuel object depth 0 (length (children (objects (scene w2) object))) w2 = Some w'"
      by (rule loop)
  qed simp
  then show ?case by (simp add: w2_def)
qed

lemma rootObjectsLoop_Some_fits:
  "rootObjectsLoop fuel i rootObjectsCount w = Some w' \<Longrightarrow>
     rootObjectsCount = length (rootObjects (scene w)) \<Longrightarrow>
     list_all (fits (objects (scene w)) fuel) (drop i (rootObjects (scene w)))"
proof (induction "rootObjectsCount - i" arbitrary: i w)
  case 0
  then show ?case by simp
next
  case (Suc k)
  let ?h = "objects (scene w)"
  let ?rs = "rootObjects (scene w)"
  from Suc.hyps(2) Suc.prems(2) have lt: "i < rootObjectsCount" and il: "i < length ?rs"
    by simp_all
  then have d: "drop i ?rs = ?rs ! i # drop (Suc i) ?rs"
    by (simp add: Cons_nth_drop_Suc)
  from Suc.prems(1) lt obtain v where
    p: "printObjectRecursive fuel (getRootObject (scene w) i) 0 w = Some v" and
    l: "rootObjectsLoop fuel (Suc i) rootObjectsCount v = Some w'"
    by (subst (asm) rootObjectsLoop.simps) (simp split: option.splits)
  from p have f1: "fits ?h fuel (?rs ! i)"
    by (auto dest: printObjectRecursive_Some_fits simp: getRootObject_def)
  with p have v: "scene v = scene w"
    by (auto simp: printObjectRecursive_eq getRootObject_def)
  have k: "k = rootObjectsCount - Suc i"
    using Suc.hyps(2) by simp
  from Suc.hyps(1)[OF k l] Suc.prems(2) v
  have "list_all (fits ?h fuel) (drop (Suc i) ?rs)"
    by simp
  with f1 d show ?case by simp
qed

lemma printSceneHierarchy_Some_fits:
  assumes "printSceneHierarchy fuel w = Some w'"
  shows "list_all (fits (objects (scene w)) fuel) (rootObjects (scene w))"
proof -
  define w1 where "w1 = w\<lparr>logger := logger w @ [hierarchyStart]\<rparr>"
  from assms obtain w2 where
    "rootObjectsLoop fuel 0 (length (rootObjects (scene w1))) w1 = Some w2"
    by (auto simp: printSceneHierarchy_def print_def getRootObjectsCount_def w1_def
        hierarchyStart_def split: option.splits)
  then have "list_all (fits (objects (scene w1)) fuel) (drop 0 (rootObjects (scene w1)))"
    by (rule rootObjectsLoop_Some_fits) simp
  then show ?thesis by (simp add: w1_def)
qed

subsection \<open>Height and finite acyclic graphs\<close>

lemma fits_of_finite_acyclic:
  assumes fin: "finite ((childEdges h)\<^sup>* `` {r})"
    and acyc: "\<forall>x \<in> (childEdges h)\<^sup>* `` {r}. (x, x) \<notin> (childEdges h)\<^sup>+"
  shows "\<exists>n. fits h n r"
proof -
  let ?E = "childEdges h"
  let ?V = "?E\<^sup>* `` {r}"
  define R where "R = {(p, c). p \<in> ?V \<and> (p, c) \<in> ?E}"
  have sub: "R \<subseteq> ?V \<times> ?V"
    by (auto simp: R_def intro: rtrancl_into_rtrancl)
  with fin have "finite R"
    by (meson finite_SigmaI finite_subset)
  moreover have "acyclic R"
  proof (unfold acyclic_def, intro allI notI)
    fix x
    assume x: "(x, x) \<in> R\<^sup>+"
    have "R \<subseteq> ?E"
      by (auto simp: R_def)
    then have "R\<^sup>+ \<subseteq> ?E\<^sup>+"
      by (rule trancl_mono_subset)
    with x have "(x, x) \<in> ?E\<^sup>+"
      by blast
    moreover from x have "x \<in> Domain R"
      by (metis Domain.DomainI tranclD)
    then have "x \<in> ?V"
      using sub by blast
    ultimately show False
      using acyc by blast
  qed
  ultimately have "wf (R\<inverse>)"
    by (rule finite_acyclic_wf_converse)
  then have "x \<in> ?V \<longrightarrow> (\<exists>n. fits h n x)" for x
  proof (induction x rule: wf_induct_rule)
    case (less x)
    show ?case
    proof
      assume xV: "x \<in> ?V"
      have "\<forall>c \<in> set (children (h x)). \<exists>n. fits h n c"
      proof
        fix c
        assume c: "c \<in> set (children (h x))"
        then have e: "(x, c) \<in> ?E"
          by (simp add: childEdges_def)
        with xV have "(c, x) \<in> R\<inverse>" and "c \<in> ?V"
          by (auto simp: R_def intro: rtrancl_into_rtrancl)
        with less show "\<exists>n. fits h n c"
          by blast
      qed
      then obtain n where "list_all (fits h n) (children (h x))"
        using list_all_fits_bound by blast
      then have "fits h (Suc n) x"
        by simp
      then show "\<exists>n. fits h n x" ..
    qed
  qed
  then show ?thesis
    by blast
qed

lemma fits_descends:
  "(r, c) \<in> (childEdges h)\<^sup>+ \<Longrightarrow> fits h n r \<Longrightarrow> \<exists>m < n. fits h m c"
proof (induction arbitrary: n rule: trancl_induct)
  case (base c)
  then show ?case
    by (cases n) (auto simp: childEdges_def list_all_iff)
next
  case (step c d)
  then obtain m where m: "m < n" "fits h m c"
    by blast
  with step.hyps(2) obtain k where "k < m" "fits h k d"
    by (cases m) (auto simp: childEdges_def list_all_iff)
  with m show ?case
    by (meson less_trans)
qed

lemma fits_no_cycle: "fits h n r \<Longrightarrow> (r, r) \<notin> (childEdges h)\<^sup>+"
proof (induction n rule: less_induct)
  case (less n)
  show ?case
  proof
    assume "(r, r) \<in> (childEdges h)\<^sup>+"
    with less.prems obtain m where "m < n" "fits h m r"
      using fits_descends by blast
    with less.IH \<open>(r, r) \<in> (childEdges h)\<^sup>+\<close> show False
      by blast
  qed
qed

lemma printObjectRecursive_cycle:
  "(object, object) \<in> (childEdges (objects (scene w)))\<^sup>+ \<Longrightarrow>
   printObjectRecursive fuel object depth w = None"
proof (rule ccontr)
  assume c: "(object, object) \<in> (childEdges (objects (scene w)))\<^sup>+"
  assume "printObjectRecursive fuel object depth w \<noteq> None"
  then obtain w' where "printObjectRecursive fuel object depth w = Some w'"
    by blast
  then have "fits (objects (scene w)) fuel object"
    by (rule printObjectRecursive_Some_fits)
  with c show False
    using fits_no_cycle by blast
qed

lemma finite_reach:
  assumes "finite E"
  shows "finite (E\<^sup>* `` {r})"
proof -
  have "E\<^sup>* `` {r} \<subseteq> insert r (Range E)"
    by (auto elim: rtranclE)
  moreover from assms have "finite (insert r (Range E))"
    by (simp add: finite_Range)
  ultimately show ?thesis
    by (rule finite_subset)
qed

subsection \<open>The object lines of an output\<close>

lemma objectLine_not_fixed:
  "objectLine obj depth \<notin> {hierarchyStart, foundTween, hierarchyEnd}"
  by (cases depth)
    (simp_all add: objectLine_def hierarchyStart_def foundTween_def hierarchyEnd_def)

lemma nodeLinesOf_linesOf:
  "nodeLinesOf (linesOf h vs) = map (\<lambda>(r, depth). objectLine (h r) depth) vs"
proof (induction vs)
  case Nil
  then show ?case by (simp add: nodeLinesOf_def)
next
  case (Cons v vs)
  obtain r depth where v: "v = (r, depth)"
    by (cases v)
  have "filter (\<lambda>line. line \<notin> {hierarchyStart, foundTween, hierarchyEnd})
      (replicate (tweens (h r)) foundTween) = []"
    by simp
  with Cons v objectLine_not_fixed[of "h r" depth] show ?case
    by (simp add: nodeLinesOf_def objectLines_def)
qed

lemma nodeLinesOf_output:
  "nodeLinesOf (hierarchyStart # linesOf h vs @ [hierarchyEnd]) =
     map (\<lambda>(r, depth). objectLine (h r) depth) vs"
  using nodeLinesOf_linesOf[of h vs] by (simp add: nodeLinesOf_def)

lemma takeWhile_objectLine:
  "takeWhile (\<lambda>c. c = CHR '' '') (objectLine obj depth) = replicate (2 * depth) CHR '' ''"
proof -
  have "takeWhile (\<lambda>c. c = CHR '' '') (replicate (2 * depth) CHR '' '' @ ''|-- '' @ name obj @ suffix obj) =
      replicate (2 * depth) CHR '' '' @ takeWhile (\<lambda>c. c = CHR '' '') (''|-- '' @ name obj @ suffix obj)"
    by (rule takeWhile_append2) simp
  then show ?thesis
    by (simp add: objectLine_def)
qed

lemma drop_objectLine:
  "take 4 (drop (2 * depth) (objectLine obj depth)) = ''|-- ''"
  by (simp add: objectLine_def)

subsection \<open>The example scene\<close>

lemma demo_fits: "list_all (fits demoObjects 2) [0, 3]"
  by (simp add: demoObjects_def numeral_2_eq_2)

lemma demo_run: "printSceneHierarchy 2 demoWorld = Some (demoWorld\<lparr>logger := demoLog\<rparr>)"
  by (simp add: printSceneHierarchy_def print_def getRootObjectsCount_def rootObjectsLoop.simps
     getRootObject_def demoWorld_def printObjectRecursive.simps childrenLoop.simps numeral_2_eq_2
     componentsInfo_def componentsLoop.simps indentationLoop.simps getChildrenCount_def getChild_def
     demoObjects_def plainComponent_def tweenComponent_def demoLog_def)

lemma demo_object_run:
  "printObjectRecursive 2 1 1 demoWorld =
     Some (demoWorld\<lparr>logger := [''  |-- Envmap (LightSource)'']\<rparr>)"
  by (simp add: print_def demoWorld_def printObjectRecursive.simps childrenLoop.simps
     numeral_2_eq_2 componentsInfo_def componentsLoop.simps indentationLoop.simps
     getChildrenCount_def getChild_def demoObjects_def plainComponent_def)

lemma demo_childEdges: "childEdges demoObjects = {(0, 1), (0, 2)}"
  by (auto simp: childEdges_def demoObjects_def split: if_splits)

lemma demo_finite_acyclic:
  "\<forall>r \<in> set (rootObjects (scene demoWorld)).
     finite ((childEdges (objects (scene demoWorld)))\<^sup>* `` {r})
     \<and> (\<forall>x \<in> (childEdges (objects (scene demoWorld)))\<^sup>* `` {r}.
          (x, x) \<notin> (childEdges (objects (scene demoWorld)))\<^sup>+)"
proof -
  have e: "childEdges (objects (scene demoWorld)) = {(0, 1), (0, 2)}"
    by (simp add: demoWorld_def demo_childEdges)
  have "(x, x) \<notin> {(0, 1), (0, 2 :: nat)}\<^sup>+" for x :: nat
  proof
    assume c: "(x, x) \<in> {(0, 1), (0, 2 :: nat)}\<^sup>+"
    then have "x = 0"
      by (auto dest: tranclD)
    moreover from c have "x = 1 \<or> x = 2"
      by (auto dest: tranclD2)
    ultimately show False
      by simp
  qed
  then show ?thesis
    unfolding e by (simp add: finite_reach)
qed

subsection \<open>Component descriptors and the suffix\<close>

text \<open>
  C1, as the code has it: an entry of the component array that is not null and has a
  getTypeName accessor is given the descriptor
  "<typeName>-TweenScript (type:<tweenType>, name:<tweenName>)" exactly when its tweenType
  is truthy (present and not the empty string), whatever its tweenName, which is rendered
  as "undefined" when absent; otherwise the descriptor is its typeName. The descriptor
  stands in componentNames after those of the earlier entries that pass the same check.
\<close>

theorem componentsLoop_descriptor:
  assumes "i < length cs" and "cs ! i = Some component"
    and "getTypeName component = Some typeName"
  shows "fst (componentsLoop cs 0 [] w) ! length (filter passesCheck (take i cs)) =
     (if truthy (tweenType component) then
        typeName @ ''-TweenScript (type:'' @ toString (tweenType component)
          @ '', name:'' @ toString (tweenName component) @ '')''
      else typeName)"
proof -
  from assms have p: "passesCheck (cs ! i)"
    by simp
  have "fst (componentsLoop cs 0 [] w) = map descriptor (filter passesCheck cs)"
    by (simp add: componentsLoop_eq)
  moreover have "length (filter passesCheck (take i cs)) < length (filter passesCheck cs)"
  proof -
    from assms(1) have "cs = take i cs @ cs ! i # drop (Suc i) cs"
      by (simp add: id_take_nth_drop)
    then have "filter passesCheck cs =
        filter passesCheck (take i cs) @ filter passesCheck (cs ! i # drop (Suc i) cs)"
      by (metis filter_append)
    with p show ?thesis by simp
  qed
  ultimately have "fst (componentsLoop cs 0 [] w) ! length (filter passesCheck (take i cs)) =
      descriptor (filter passesCheck cs ! length (filter passesCheck (take i cs)))"
    by simp
  also have "\<dots> = descriptor (cs ! i)"
    using filter_take_nth[of i cs passesCheck] assms(1) p by simp
  finally show ?thesis
    using assms(2,3) by (simp add: descriptor_Some)
qed

theorem componentsLoop_descriptor_witness:
  "(1::nat) < length [None, Some tweenTypeOnly, Some tweenComponent]
   \<and> [None, Some tweenTypeOnly, Some tweenComponent] ! 1 = Some tweenTypeOnly
   \<and> getTypeName tweenTypeOnly = Some ''ScriptComponent''
   \<and> fst (componentsLoop [None, Some tweenTypeOnly, Some tweenComponent] 0 [] demoWorld) ! 0 =
       ''ScriptComponent-TweenScript (type:alpha, name:undefined)''"
  using componentsLoop_descriptor
    [of 1 "[None, Some tweenTypeOnly, Some tweenComponent]" tweenTypeOnly "''ScriptComponent''" demoWorld]
  by (simp add: tweenTypeOnly_def)

theorem tweenType_alone_counterexample:
  "fst (componentsInfo tweenTypeOnlyObject demoWorld) =
     '' (ScriptComponent-TweenScript (type:alpha, name:undefined))''
   \<and> fst (componentsInfo tweenTypeOnlyObject demoWorld) \<noteq> '' (ScriptComponent)''"
  by (simp add: componentsInfo_def componentsLoop.simps tweenTypeOnlyObject_def tweenTypeOnly_def)

text \<open>
  C3, as the code has it: the line of a visited object carries no suffix when its
  component array is null or empty; otherwise it ends with " (", the descriptors joined
  by ", ", and ")", where the descriptors are those of the entries that are not null and
  have a getTypeName accessor, in the order of the array. There are as many descriptors
  as entries when every entry passes that check. The lines written before it for the
  object are "Found tween component" lines only.
\<close>

theorem printObjectRecursive_suffix:
  assumes "fits (objects (scene w)) n object" and "n \<le> fuel"
    and "cs = (case getComponents (objects (scene w) object) of None \<Rightarrow> [] | Some cs \<Rightarrow> cs)"
  shows "\<exists>founds descriptors rest.
     printObjectRecursive fuel object depth w =
       Some (w\<lparr>logger := logger w @ founds @
         (replicate (2 * depth) CHR '' '' @ ''|-- '' @ name (objects (scene w) object)
            @ (if cs = [] then [] else '' ('' @ join '', '' descriptors @ '')''))
         # rest\<rparr>)
     \<and> set founds \<subseteq> {''Found tween component''}
     \<and> descriptors = map descriptor (filter passesCheck cs)
     \<and> (list_all passesCheck cs \<longrightarrow> length descriptors = length cs)"
proof -
  let ?obj = "objects (scene w) object"
  from printObjectRecursive_first[OF assms(1,2), of depth] obtain rest where
    "printObjectRecursive fuel object depth w =
       Some (w\<lparr>logger := logger w @ objectLines ?obj depth @ rest\<rparr>)"
    by blast
  then have run: "printObjectRecursive fuel object depth w =
       Some (w\<lparr>logger := logger w @ replicate (tweens ?obj) foundTween @
         (replicate (2 * depth) CHR '' '' @ ''|-- '' @ name ?obj
            @ (if cs = [] then []
               else '' ('' @ join '', '' (map descriptor (filter passesCheck cs)) @ '')''))
         # rest\<rparr>)"
    by (simp add: objectLines_def objectLine_def suffix_eq assms(3))
  have founds: "set (replicate (tweens ?obj) foundTween) \<subseteq> {''Found tween component''}"
    by (auto simp: foundTween_def)
  have len: "list_all passesCheck cs \<longrightarrow>
      length (map descriptor (filter passesCheck cs)) = length cs"
    by (simp add: list_all_iff)
  from run founds len show ?thesis
    by blast
qed

theorem printObjectRecursive_suffix_witness:
  "fits (objects (scene demoWorld)) 1 3 \<and> (1::nat) \<le> 1
   \<and> [Some (plainComponent ''Image''), None, Some tweenComponent] =
        (case getComponents (objects (scene demoWorld) 3) of None \<Rightarrow> [] | Some cs \<Rightarrow> cs)
   \<and> (\<exists>founds descriptors rest.
     printObjectRecursive 1 3 0 demoWorld =
       Some (demoWorld\<lparr>logger := logger demoWorld @ founds @
         (replicate (2 * 0) CHR '' '' @ ''|-- '' @ name (objects (scene demoWorld) 3)
            @ (if [Some (plainComponent ''Image''), None, Some tweenComponent] = [] then []
               else '' ('' @ join '', '' descriptors @ '')''))
         # rest\<rparr>)
     \<and> set founds \<subseteq> {''Found tween component''}
     \<and> descriptors =
         map descriptor (filter passesCheck [Some (plainComponent ''Image''), None, Some tweenComponent])
     \<and> (list_all passesCheck [Some (plainComponent ''Image''), None, Some tweenComponent] \<longrightarrow>
          length descriptors = length [Some (plainComponent ''Image''), None, Some tweenComponent]))"
proof -
  have f: "fits (objects (scene demoWorld)) 1 3"
    by (simp add: demoWorld_def demoObjects_def)
  have c: "[Some (plainComponent ''Image''), None, Some tweenComponent] =
        (case getComponents (objects (scene demoWorld) 3) of None \<Rightarrow> [] | Some cs \<Rightarrow> cs)"
    by (simp add: demoWorld_def demoObjects_def)
  show ?thesis
    by (rule conjI [OF f conjI [OF order_refl conjI [OF c
          printObjectRecursive_suffix [OF f order_refl c]]]])
qed

theorem null_component_counterexample:
  "getComponents (ghostObjects 0) =
     Some [None, Some \<lparr>getTypeName = None, tweenType = Str ''alpha'', tweenName = Str ''fadeIn''\<rparr>]
   \<and> printObjectRecursive 1 0 0 ghostWorld = Some (ghostWorld\<lparr>logger := [''|-- Ghost ()'']\<rparr>)
   \<and> length (fst (componentsLoop
        [None, Some \<lparr>getTypeName = None, tweenType = Str ''alpha'', tweenName = Str ''fadeIn''\<rparr>]
        0 [] ghostWorld)) \<noteq> 2"
  by (simp add: ghostWorld_def ghostObjects_def printObjectRecursive.simps childrenLoop.simps
      componentsInfo_def componentsLoop.simps indentationLoop.simps getChildrenCount_def print_def)

text \<open>
  C10: an object whose component array is not empty but holds only null entries and
  objects without a getTypeName accessor is printed with the suffix " ()"; the entries
  are skipped, no other line is written for the object, and the call returns.
\<close>

theorem printObjectRecursive_empty_parentheses:
  assumes "fits (objects (scene w)) n object" and "n \<le> fuel"
    and "getComponents (objects (scene w) object) = Some cs" and "cs \<noteq> []"
    and "\<forall>c \<in> set cs. c = None \<or> (\<exists>component. c = Some component \<and> getTypeName component = None)"
  shows "\<exists>rest. printObjectRecursive fuel object depth w =
     Some (w\<lparr>logger := logger w @
       (replicate (2 * depth) CHR '' '' @ ''|-- '' @ name (objects (scene w) object) @ '' ()'')
       # rest\<rparr>)"
proof -
  from assms(5) have "filter passesCheck cs = []" and "filter isTween cs = []"
    using filter_passesCheck_none by blast+
  with assms(3,4) have "objectLines (objects (scene w) object) depth =
      [replicate (2 * depth) CHR '' '' @ ''|-- '' @ name (objects (scene w) object) @ '' ()'']"
    by (simp add: objectLines_def objectLine_def suffix_def tweens_def)
  with printObjectRecursive_first[OF assms(1,2), of depth] show ?thesis
    by auto
qed

theorem printObjectRecursive_empty_parentheses_witness:
  "fits (objects (scene ghostWorld)) 1 0 \<and> (1::nat) \<le> 1
   \<and> getComponents (objects (scene ghostWorld) 0) =
       Some [None, Some \<lparr>getTypeName = None, tweenType = Str ''alpha'', tweenName = Str ''fadeIn''\<rparr>]
   \<and> (\<exists>rest. printObjectRecursive 1 0 3 ghostWorld =
     Some (ghostWorld\<lparr>logger := logger ghostWorld @
       (replicate (2 * 3) CHR '' '' @ ''|-- '' @ name (objects (scene ghostWorld) 0) @ '' ()'')
       # rest\<rparr>))"
proof -
  have f: "fits (objects (scene ghostWorld)) 1 0"
    by (simp add: ghostWorld_def ghostObjects_def)
  have g: "getComponents (objects (scene ghostWorld) 0) =
       Some [None, Some \<lparr>getTypeName = None, tweenType = Str ''alpha'', tweenName = Str ''fadeIn''\<rparr>]"
    by (simp add: ghostWorld_def ghostObjects_def)
  have "\<exists>rest. printObjectRecursive 1 0 3 ghostWorld =
     Some (ghostWorld\<lparr>logger := logger ghostWorld @
       (replicate (2 * 3) CHR '' '' @ ''|-- '' @ name (objects (scene ghostWorld) 0) @ '' ()'')
       # rest\<rparr>)"
    by (rule printObjectRecursive_empty_parentheses [OF f order_refl g]) simp_all
  with f g show ?thesis by simp
qed

subsection \<open>The lines of a scene\<close>

text \<open>
  C2, as the code has it: on a finite acyclic scene printSceneHierarchy writes the start
  marker, then for every object in visiting order one line "Found tween component" for
  each entry of its component array that passes the check and has a truthy tweenType,
  followed by the object's line indentation + "|-- " + name + suffix, then the end
  marker, and nothing else. The number of lines is two plus the number of visited objects
  plus the number of such tween entries.
\<close>

theorem printSceneHierarchy_lines:
  assumes "list_all (fits (objects (scene w)) n) (rootObjects (scene w))" and "n \<le> fuel"
  shows "\<exists>out. printSceneHierarchy fuel w = Some (w\<lparr>logger := logger w @ out\<rparr>)
     \<and> out = ''--- Scene Hierarchy Start ---'' #
         concat (map (\<lambda>(r, depth).
            replicate (tweens (objects (scene w) r)) ''Found tween component'' @
            [replicate (2 * depth) CHR '' '' @ ''|-- '' @ name (objects (scene w) r)
               @ suffix (objects (scene w) r)])
           (visitsRoots (objects (scene w)) n (rootObjects (scene w))))
         @ [''--- Scene Hierarchy End ---'']
     \<and> length out = 2 + length (visitsRoots (objects (scene w)) n (rootObjects (scene w)))
         + sum_list (map (\<lambda>(r, depth). tweens (objects (scene w) r))
             (visitsRoots (objects (scene w)) n (rootObjects (scene w))))"
proof -
  let ?h = "objects (scene w)"
  let ?vs = "visitsRoots ?h n (rootObjects (scene w))"
  let ?out = "hierarchyStart # linesOf ?h ?vs @ [hierarchyEnd]"
  have "printSceneHierarchy fuel w = Some (w\<lparr>logger := logger w @ ?out\<rparr>)"
    using assms by (rule printSceneHierarchy_eq)
  moreover have "?out = ''--- Scene Hierarchy Start ---'' #
         concat (map (\<lambda>(r, depth).
            replicate (tweens (?h r)) ''Found tween component'' @
            [replicate (2 * depth) CHR '' '' @ ''|-- '' @ name (?h r) @ suffix (?h r)]) ?vs)
         @ [''--- Scene Hierarchy End ---'']"
    by (simp only: linesOf_unfold hierarchyStart_def hierarchyEnd_def)
  moreover have "length ?out = 2 + length ?vs + sum_list (map (\<lambda>(r, depth). tweens (?h r)) ?vs)"
    by (simp add: length_linesOf)
  ultimately show ?thesis
    by blast
qed

theorem printSceneHierarchy_lines_witness:
  "list_all (fits (objects (scene demoWorld)) 2) (rootObjects (scene demoWorld)) \<and> (2::nat) \<le> 2
   \<and> (\<exists>out. printSceneHierarchy 2 demoWorld = Some (demoWorld\<lparr>logger := logger demoWorld @ out\<rparr>)
     \<and> out = ''--- Scene Hierarchy Start ---'' #
         concat (map (\<lambda>(r, depth).
            replicate (tweens (objects (scene demoWorld) r)) ''Found tween component'' @
            [replicate (2 * depth) CHR '' '' @ ''|-- '' @ name (objects (scene demoWorld) r)
               @ suffix (objects (scene demoWorld) r)])
           (visitsRoots (objects (scene demoWorld)) 2 (rootObjects (scene demoWorld))))
         @ [''--- Scene Hierarchy End ---'']
     \<and> length out = 2 + length (visitsRoots (objects (scene demoWorld)) 2 (rootObjects (scene demoWorld)))
         + sum_list (map (\<lambda>(r, depth). tweens (objects (scene demoWorld) r))
             (visitsRoots (objects (scene demoWorld)) 2 (rootObjects (scene demoWorld)))))"
proof -
  have f: "list_all (fits (objects (scene demoWorld)) 2) (rootObjects (scene demoWorld))"
    using demo_fits by (simp add: demoWorld_def)
  show ?thesis
    by (rule conjI [OF f conjI [OF order_refl printSceneHierarchy_lines [OF f order_refl]]])
qed

theorem found_tween_line_counterexample:
  "printSceneHierarchy 1 tweenWorld = Some (tweenWorld\<lparr>logger :=
      [''--- Scene Hierarchy Start ---'',
       ''Found tween component'',
       ''|-- Intro Cta (ScriptComponent-TweenScript (type:alpha, name:fadeIn))'',
       ''--- Scene Hierarchy End ---'']\<rparr>)
   \<and> printSceneHierarchy 1 tweenWorld \<noteq> Some (tweenWorld\<lparr>logger :=
      [''--- Scene Hierarchy Start ---'',
       ''|-- Intro Cta (ScriptComponent-TweenScript (type:alpha, name:fadeIn))'',
       ''--- Scene Hierarchy End ---'']\<rparr>)"
  by (simp add: printSceneHierarchy_def print_def getRootObjectsCount_def rootObjectsLoop.simps
     getRootObject_def tweenWorld_def printObjectRecursive.simps childrenLoop.simps
     componentsInfo_def componentsLoop.simps indentationLoop.simps getChildrenCount_def
     tweenObjects_def tweenComponent_def)

text \<open>
  C4: on a finite acyclic scene, the lines that printSceneHierarchy writes besides the
  two markers and the "Found tween component" lines are one per visited object, in
  visiting order, and the line of an object at distance \<open>depth\<close> from its root (a
  root has depth 0) begins with exactly \<open>2 * depth\<close> spaces, followed by "|-- ".
\<close>

theorem printSceneHierarchy_indentation:
  assumes "list_all (fits (objects (scene w)) n) (rootObjects (scene w))" and "n \<le> fuel"
  shows "\<exists>out. printSceneHierarchy fuel w = Some (w\<lparr>logger := logger w @ out\<rparr>)
     \<and> list_all2 (\<lambda>(r, depth) line.
           takeWhile (\<lambda>c. c = CHR '' '') line = replicate (2 * depth) CHR '' ''
           \<and> take 4 (drop (2 * depth) line) = ''|-- '')
         (visitsRoots (objects (scene w)) n (rootObjects (scene w)))
         (nodeLinesOf out)"
proof -
  let ?h = "objects (scene w)"
  let ?vs = "visitsRoots ?h n (rootObjects (scene w))"
  let ?out = "hierarchyStart # linesOf ?h ?vs @ [hierarchyEnd]"
  have run: "printSceneHierarchy fuel w = Some (w\<lparr>logger := logger w @ ?out\<rparr>)"
    using assms by (rule printSceneHierarchy_eq)
  have "list_all2 (\<lambda>(r, depth) line.
           takeWhile (\<lambda>c. c = CHR '' '') line = replicate (2 * depth) CHR '' ''
           \<and> take 4 (drop (2 * depth) line) = ''|-- '')
         ?vs (map (\<lambda>(r, depth). objectLine (?h r) depth) ?vs)"
    by (auto simp: list_all2_conv_all_nth takeWhile_objectLine drop_objectLine split: prod.splits)
  then have "list_all2 (\<lambda>(r, depth) line.
           takeWhile (\<lambda>c. c = CHR '' '') line = replicate (2 * depth) CHR '' ''
           \<and> take 4 (drop (2 * depth) line) = ''|-- '')
         ?vs (nodeLinesOf ?out)"
    by (simp only: nodeLinesOf_output)
  with run show ?thesis
    by blast
qed

theorem printSceneHierarchy_indentation_witness:
  "list_all (fits (objects (scene demoWorld)) 2) (rootObjects (scene demoWorld)) \<and> (2::nat) \<le> 2
   \<and> (\<exists>out. printSceneHierarchy 2 demoWorld = Some (demoWorld\<lparr>logger := logger demoWorld @ out\<rparr>)
     \<and> list_all2 (\<lambda>(r, depth) line.
           takeWhile (\<lambda>c. c = CHR '' '') line = replicate (2 * depth) CHR '' ''
           \<and> take 4 (drop (2 * depth) line) = ''|-- '')
         (visitsRoots (objects (scene demoWorld)) 2 (rootObjects (scene demoWorld)))
         (nodeLinesOf out))"
proof -
  have f: "list_all (fits (objects (scene demoWorld)) 2) (rootObjects (scene demoWorld))"
    using demo_fits by (simp add: demoWorld_def)
  show ?thesis
    by (rule conjI [OF f conjI [OF order_refl printSceneHierarchy_indentation [OF f order_refl]]])
qed

text \<open>
  C5: on a finite acyclic scene, the object lines that printSceneHierarchy writes are, in
  this order and with nothing left out, reordered or merged, the lines of the objects in
  depth-first pre-order: the root objects in the order of the scene's list, each object
  before the subtrees of its children, and these in the order of its list of children.
  An object that is reached twice is printed twice.
\<close>

theorem printSceneHierarchy_preorder:
  assumes "list_all (fits (objects (scene w)) n) (rootObjects (scene w))" and "n \<le> fuel"
  shows "\<exists>out. printSceneHierarchy fuel w = Some (w\<lparr>logger := logger w @ out\<rparr>)
     \<and> nodeLinesOf out =
         map (\<lambda>(r, depth). replicate (2 * depth) CHR '' '' @ ''|-- ''
                @ name (objects (scene w) r) @ suffix (objects (scene w) r))
           (concat (map (visits (objects (scene w)) n 0) (rootObjects (scene w))))"
proof -
  let ?h = "objects (scene w)"
  let ?vs = "visitsRoots ?h n (rootObjects (scene w))"
  let ?out = "hierarchyStart # linesOf ?h ?vs @ [hierarchyEnd]"
  have run: "printSceneHierarchy fuel w = Some (w\<lparr>logger := logger w @ ?out\<rparr>)"
    using assms by (rule printSceneHierarchy_eq)
  have "nodeLinesOf ?out = map (\<lambda>(r, depth). objectLine (?h r) depth) ?vs"
    by (rule nodeLinesOf_output)
  then have "nodeLinesOf ?out =
         map (\<lambda>(r, depth). replicate (2 * depth) CHR '' '' @ ''|-- ''
                @ name (?h r) @ suffix (?h r))
           (concat (map (visits ?h n 0) (rootObjects (scene w))))"
    by (simp add: objectLine_def visitsRoots_def)
  with run show ?thesis
    by blast
qed

theorem printSceneHierarchy_preorder_witness:
  "list_all (fits (objects (scene demoWorld)) 2) (rootObjects (scene demoWorld)) \<and> (2::nat) \<le> 2
   \<and> (\<exists>out. printSceneHierarchy 2 demoWorld = Some (demoWorld\<lparr>logger := logger demoWorld @ out\<rparr>)
     \<and> nodeLinesOf out =
         map (\<lambda>(r, depth). replicate (2 * depth) CHR '' '' @ ''|-- ''
                @ name (objects (scene demoWorld) r) @ suffix (objects (scene demoWorld) r))
           (concat (map (visits (objects (scene demoWorld)) 2 0) (rootObjects (scene demoWorld)))))"
proof -
  have f: "list_all (fits (objects (scene demoWorld)) 2) (rootObjects (scene demoWorld))"
    using demo_fits by (simp add: demoWorld_def)
  show ?thesis
    by (rule conjI [OF f conjI [OF order_refl printSceneHierarchy_preorder [OF f order_refl]]])
qed

text \<open>
  C9: when the scene reports no root objects, printSceneHierarchy writes the start marker
  and the end marker to the Logger and nothing else, whatever the bound on the stack.
\<close>

theorem printSceneHierarchy_no_roots:
  "rootObjects (scene w) = [] \<Longrightarrow>
   printSceneHierarchy fuel w =
     Some (w\<lparr>logger := logger w @
       [''--- Scene Hierarchy Start ---'', ''--- Scene Hierarchy End ---'']\<rparr>)"
  by (simp add: printSceneHierarchy_def print_def getRootObjectsCount_def rootObjectsLoop.simps)

theorem printSceneHierarchy_no_roots_witness:
  "rootObjects (scene \<lparr>scene = \<lparr>objects = demoObjects, rootObjects = []\<rparr>, logger = []\<rparr>) = []
   \<and> printSceneHierarchy 0 \<lparr>scene = \<lparr>objects = demoObjects, rootObjects = []\<rparr>, logger = []\<rparr> =
     Some \<lparr>scene = \<lparr>objects = demoObjects, rootObjects = []\<rparr>,
       logger = [''--- Scene Hierarchy Start ---'', ''--- Scene Hierarchy End ---'']\<rparr>"
  using printSceneHierarchy_no_roots
    [of "\<lparr>scene = \<lparr>objects = demoObjects, rootObjects = []\<rparr>, logger = []\<rparr>" 0]
  by simp

subsection \<open>Termination, determinism and the frame\<close>

text \<open>
  C6: on a scene in which the objects reachable from every root object are finitely many
  and none of them is its own descendant (a finite acyclic forest), printSceneHierarchy
  returns for every bound on the stack from some bound on; and a call of
  printObjectRecursive on an object without children returns within a single stack frame.
\<close>

theorem printSceneHierarchy_terminates:
  assumes "\<forall>r \<in> set (rootObjects (scene w)).
     finite ((childEdges (objects (scene w)))\<^sup>* `` {r})
     \<and> (\<forall>x \<in> (childEdges (objects (scene w)))\<^sup>* `` {r}.
          (x, x) \<notin> (childEdges (objects (scene w)))\<^sup>+)"
  shows "(\<exists>n. \<forall>fuel \<ge> n. \<exists>w'. printSceneHierarchy fuel w = Some w')
   \<and> (\<forall>object depth. children (objects (scene w) object) = [] \<longrightarrow>
        (\<exists>w'. printObjectRecursive (Suc 0) object depth w = Some w'))"
proof
  from assms have "\<forall>r \<in> set (rootObjects (scene w)). \<exists>n. fits (objects (scene w)) n r"
    using fits_of_finite_acyclic by blast
  then obtain n where n: "list_all (fits (objects (scene w)) n) (rootObjects (scene w))"
    using list_all_fits_bound by blast
  have "\<exists>w'. printSceneHierarchy fuel w = Some w'" if "n \<le> fuel" for fuel
    using printSceneHierarchy_eq [OF n that] by simp
  then show "\<exists>n. \<forall>fuel \<ge> n. \<exists>w'. printSceneHierarchy fuel w = Some w'"
    by blast
next
  show "\<forall>object depth. children (objects (scene w) object) = [] \<longrightarrow>
        (\<exists>w'. printObjectRecursive (Suc 0) object depth w = Some w')"
  proof (intro allI impI)
    fix object depth
    assume "children (objects (scene w) object) = []"
    then have "fits (objects (scene w)) (Suc 0) object"
      by simp
    then show "\<exists>w'. printObjectRecursive (Suc 0) object depth w = Some w'"
      by (simp add: printObjectRecursive_eq)
  qed
qed

theorem printSceneHierarchy_terminates_witness:
  "finite (childEdges (objects (scene demoWorld)))
   \<and> acyclic (childEdges (objects (scene demoWorld)))
   \<and> (\<exists>n. \<forall>fuel \<ge> n. \<exists>w'. printSceneHierarchy fuel demoWorld = Some w')
   \<and> children (objects (scene demoWorld) 1) = []
   \<and> (\<exists>w'. printObjectRecursive (Suc 0) 1 1 demoWorld = Some w')"
proof -
  note t = printSceneHierarchy_terminates [OF demo_finite_acyclic]
  have e: "childEdges (objects (scene demoWorld)) = {(0, 1), (0, 2)}"
    by (simp add: demoWorld_def demo_childEdges)
  have fin: "finite (childEdges (objects (scene demoWorld)))"
    by (simp add: e)
  have "\<forall>x. (x, x) \<notin> (childEdges (objects (scene demoWorld)))\<^sup>+"
  proof (intro allI notI)
    fix x
    assume c: "(x, x) \<in> (childEdges (objects (scene demoWorld)))\<^sup>+"
    then have "x = 0"
      unfolding e by (auto dest: tranclD)
    moreover from c have "x = 1 \<or> x = 2"
      unfolding e by (auto dest: tranclD2)
    ultimately show False
      by simp
  qed
  then have acy: "acyclic (childEdges (objects (scene demoWorld)))"
    by (simp add: acyclic_def)
  have leaf: "children (objects (scene demoWorld) 1) = []"
    by (simp add: demoWorld_def demoObjects_def)
  from conjunct2 [OF t] leaf
  have ret: "\<exists>w'. printObjectRecursive (Suc 0) 1 1 demoWorld = Some w'"
    by blast
  show ?thesis
    by (rule conjI [OF fin conjI [OF acy conjI [OF conjunct1 [OF t] conjI [OF leaf ret]]]])
qed

text \<open>
  C7: when a call of printSceneHierarchy has returned, a second call on the world it left
  returns as well and appends to the Logger the very lines that the first call appended.
\<close>

theorem printSceneHierarchy_twice:
  "printSceneHierarchy fuel w = Some w1 \<Longrightarrow>
   \<exists>out w2. logger w1 = logger w @ out
     \<and> printSceneHierarchy fuel w1 = Some w2 \<and> logger w2 = logger w1 @ out"
proof -
  assume run: "printSceneHierarchy fuel w = Some w1"
  let ?out = "hierarchyStart #
        linesOf (objects (scene w)) (visitsRoots (objects (scene w)) fuel (rootObjects (scene w)))
        @ [hierarchyEnd]"
  from run have f: "list_all (fits (objects (scene w)) fuel) (rootObjects (scene w))"
    by (rule printSceneHierarchy_Some_fits)
  from printSceneHierarchy_eq[OF f order_refl] run
  have w1: "w1 = w\<lparr>logger := logger w @ ?out\<rparr>"
    by simp
  with f have "list_all (fits (objects (scene w1)) fuel) (rootObjects (scene w1))"
    by simp
  from printSceneHierarchy_eq[OF this order_refl] w1
  have "printSceneHierarchy fuel w1 = Some (w1\<lparr>logger := logger w1 @ ?out\<rparr>)"
    by simp
  with w1 show ?thesis
    by simp
qed

theorem printSceneHierarchy_twice_witness:
  "printSceneHierarchy 2 demoWorld = Some (demoWorld\<lparr>logger := demoLog\<rparr>)
   \<and> (\<exists>out w2. logger (demoWorld\<lparr>logger := demoLog\<rparr>) = logger demoWorld @ out
     \<and> printSceneHierarchy 2 (demoWorld\<lparr>logger := demoLog\<rparr>) = Some w2
     \<and> logger w2 = logger (demoWorld\<lparr>logger := demoLog\<rparr>) @ out)"
  by (rule conjI [OF demo_run printSceneHierarchy_twice [OF demo_run]])

text \<open>
  C8: a call of printSceneHierarchy or of printObjectRecursive that returns leaves the
  scene as it was (the name, the components and the children of every object, and the
  list of root objects); the world after the call is the world before it with lines
  appended to the Logger.
\<close>

theorem printer_leaves_scene:
  "(printSceneHierarchy fuel w = Some w' \<longrightarrow>
      scene w' = scene w \<and> (\<exists>out. w' = w\<lparr>logger := logger w @ out\<rparr>))
   \<and> (printObjectRecursive fuel object depth w = Some w'' \<longrightarrow>
      scene w'' = scene w \<and> (\<exists>out. w'' = w\<lparr>logger := logger w @ out\<rparr>))"
proof (intro conjI impI)
  assume run: "printSceneHierarchy fuel w = Some w'"
  then have "list_all (fits (objects (scene w)) fuel) (rootObjects (scene w))"
    by (rule printSceneHierarchy_Some_fits)
  from printSceneHierarchy_eq[OF this order_refl] run
  have "w' = w\<lparr>logger := logger w @ hierarchyStart #
        linesOf (objects (scene w)) (visitsRoots (objects (scene w)) fuel (rootObjects (scene w)))
        @ [hierarchyEnd]\<rparr>"
    by simp
  then show "scene w' = scene w" and "\<exists>out. w' = w\<lparr>logger := logger w @ out\<rparr>"
    by auto
next
  assume run: "printObjectRecursive fuel object depth w = Some w''"
  then have "fits (objects (scene w)) fuel object"
    by (rule printObjectRecursive_Some_fits)
  from printObjectRecursive_eq[OF this] run
  have "w'' = w\<lparr>logger := logger w @
          linesOf (objects (scene w)) (visits (objects (scene w)) fuel depth object)\<rparr>"
    by simp
  then show "scene w'' = scene w" and "\<exists>out. w'' = w\<lparr>logger := logger w @ out\<rparr>"
    by auto
qed

theorem printer_leaves_scene_witness:
  "printSceneHierarchy 2 demoWorld = Some (demoWorld\<lparr>logger := demoLog\<rparr>)
   \<and> printObjectRecursive 2 1 1 demoWorld =
         Some (demoWorld\<lparr>logger := [''  |-- Envmap (LightSource)'']\<rparr>)
   \<and> (scene (demoWorld\<lparr>logger := demoLog\<rparr>) = scene demoWorld
      \<and> (\<exists>out. demoWorld\<lparr>logger := demoLog\<rparr> =
            demoWorld\<lparr>logger := logger demoWorld @ out\<rparr>))
   \<and> (scene (demoWorld\<lparr>logger := [''  |-- Envmap (LightSource)'']\<rparr>) = scene demoWorld
      \<and> (\<exists>out. demoWorld\<lparr>logger := [''  |-- Envmap (LightSource)'']\<rparr> =
            demoWorld\<lparr>logger := logger demoWorld @ out\<rparr>))"
proof -
  note t = printer_leaves_scene [of 2 demoWorld "demoWorld\<lparr>logger := demoLog\<rparr>" 1 1
      "demoWorld\<lparr>logger := [''  |-- Envmap (LightSource)'']\<rparr>"]
  note a = conjunct1 [OF t, THEN mp, OF demo_run]
  note b = conjunct2 [OF t, THEN mp, OF demo_object_run]
  show ?thesis
    by (rule conjI [OF demo_run conjI [OF demo_object_run conjI [OF a b]]])
qed

end
